theory Spec2Isabelle
  imports Complex_Main "HOL-Library.Multiset"
begin

unbundle bit_operations_syntax

section \<open>SubstitutionBreaker: keys, quadgram model, hill climbing\<close>

text \<open>
  A shallow embedding of \<^verbatim>\<open>subbreaker/key.py\<close> and \<^verbatim>\<open>subbreaker/breaker.py\<close>.

  Conventions of the embedding.
  \<^item> A Python \<^verbatim>\<open>str\<close> is a list over a type \<open>'c\<close> of characters. Python's case mapping
    is not part of the repository; it is taken as two parameters, \<open>lc\<close> for
    \<^verbatim>\<open>str.lower\<close> (applied character by character) and \<open>uc\<close> for \<^verbatim>\<open>char.upper()\<close>,
    whose result is a string since it may have more than one character (the source
    tests \<^verbatim>\<open>len(char.upper()) == 1\<close>). \<open>ascii_lower\<close> and \<open>ascii_upper\<close> below
    are the ASCII instance, used to evaluate concrete inputs.
  \<^item> Alphabet indices, positions and quadgram codes are non-negative Python integers:
    \<open>nat\<close>. Table scores and fitness sums are \<open>int\<close>.
  \<^item> Every \<^verbatim>\<open>raise\<close> of the source, and every list access that Python would answer
    with an exception, is an \<open>Inl\<close> result.
  \<^item> \<^verbatim>\<open>random.shuffle\<close> is a parameter \<open>shuffle\<close>: \<open>shuffle r key\<close> is the list left
    in \<open>key\<close> by the call made in round \<open>r\<close>.
  \<^item> Floating point values produced by \<^verbatim>\<open>math.log\<close> and \<open>/\<close> are real or rational
    numbers; the wall-clock fields \<^verbatim>\<open>seconds\<close> and \<^verbatim>\<open>keys_per_second\<close> of the result
    are left out.
\<close>

subsection \<open>Errors and partial list operations\<close>

datatype error =
    AlphabetInvalid_unique
  | AlphabetInvalid_too_long
  | KeyInvalid_unique
  | KeyInvalid_length
  | KeyInvalid_set
  | ValueError_max_rounds
  | ValueError_consolidate
  | ValueError_too_short
  | ValueError_three_characters
  | ValueError_maketrans
  | ValueError_index
  | StopIteration
  | IndexError
  | ZeroDivisionError

definition ebind :: "error + 'a \<Rightarrow> ('a \<Rightarrow> error + 'b) \<Rightarrow> error + 'b" where
  "ebind m f = (case m of Inl e \<Rightarrow> Inl e | Inr a \<Rightarrow> f a)"

definition nth_e :: "'a list \<Rightarrow> nat \<Rightarrow> error + 'a" where
  "nth_e xs i = (if i < length xs then Inr (xs ! i) else Inl IndexError)"

fun efold :: "('a \<Rightarrow> 's \<Rightarrow> error + 's) \<Rightarrow> 'a list \<Rightarrow> 's \<Rightarrow> error + 's" where
  "efold f [] s = Inr s"
| "efold f (x # xs) s = (case f x s of Inl e \<Rightarrow> Inl e | Inr s' \<Rightarrow> efold f xs s')"


lemma ebind_Inr_iff: "ebind m f = Inr r \<longleftrightarrow> (\<exists>a. m = Inr a \<and> f a = Inr r)"
  by (cases m) (simp_all add: ebind_def)

lemma ebind_Inr [simp]: "ebind (Inr a) f = f a"
  by (simp add: ebind_def)

lemma ebind_Inl [simp]: "ebind (Inl e) f = Inl e"
  by (simp add: ebind_def)

subsection \<open>ASCII case mapping\<close>

definition ascii_lower :: "char \<Rightarrow> char" where
  "ascii_lower c =
     (let n = (of_char c :: nat) in if 65 \<le> n \<and> n \<le> 90 then char_of (n + 32) else c)"

definition ascii_upper :: "char \<Rightarrow> string" where
  "ascii_upper c =
     (let n = (of_char c :: nat) in if 97 \<le> n \<and> n \<le> 122 then [char_of (n - 32)] else [c])"

subsection \<open>key.py: class Key\<close>

record 'c Key =
  alphabet_of :: "'c list"
  key_of :: "'c list"
  encode_tab :: "'c \<rightharpoonup> 'c"
  decode_tab :: "'c \<rightharpoonup> 'c"

definition check_alphabet :: "('c \<Rightarrow> 'c) \<Rightarrow> 'c list \<Rightarrow> error + 'c list" where
  "check_alphabet lc alphabet =
     (let alphabet = map lc alphabet in
      if length alphabet \<noteq> card (set alphabet) then Inl AlphabetInvalid_unique
      else Inr alphabet)"

definition check_key :: "('c \<Rightarrow> 'c) \<Rightarrow> 'c list \<Rightarrow> 'c list \<Rightarrow> error + 'c list" where
  "check_key lc key alphabet =
     (let key = map lc key; key_set = set key in
      if length key \<noteq> card key_set then Inl KeyInvalid_unique
      else if length key \<noteq> length alphabet then Inl KeyInvalid_length
      else if key_set \<noteq> set alphabet then Inl KeyInvalid_set
      else Inr key)"

definition upper_safe :: "('c \<Rightarrow> 'c list) \<Rightarrow> 'c list \<Rightarrow> 'c list" where
  "upper_safe uc string = map (\<lambda>char. case uc char of [u] \<Rightarrow> u | _ \<Rightarrow> char) string"

text \<open>
  \<^verbatim>\<open>str.maketrans(x, y)\<close>: the dictionary of the pairs \<open>zip x y\<close>, a later pair
  replacing an earlier one with the same key; strings of different lengths are refused.
\<close>

definition maketrans :: "'c list \<Rightarrow> 'c list \<Rightarrow> error + ('c \<rightharpoonup> 'c)" where
  "maketrans x y =
     (if length x \<noteq> length y then Inl ValueError_maketrans
      else Inr (map_of (rev (zip x y))))"

definition translate :: "('c \<rightharpoonup> 'c) \<Rightarrow> 'c list \<Rightarrow> 'c list" where
  "translate tab text = map (\<lambda>c. case tab c of None \<Rightarrow> c | Some d \<Rightarrow> d) text"

definition Key_init ::
  "('c \<Rightarrow> 'c) \<Rightarrow> ('c \<Rightarrow> 'c list) \<Rightarrow> 'c list \<Rightarrow> 'c list \<Rightarrow> error + 'c Key" where
  "Key_init lc uc key alphabet =
     ebind (check_alphabet lc alphabet) (\<lambda>alphabet'.
     ebind (check_key lc key alphabet') (\<lambda>key'.
       let camel_key = upper_safe uc key @ map lc key;
           camel_alphabet = upper_safe uc alphabet @ map lc alphabet
       in ebind (maketrans camel_alphabet camel_key) (\<lambda>enc.
          ebind (maketrans camel_key camel_alphabet) (\<lambda>dec.
            Inr \<lparr>alphabet_of = alphabet', key_of = key',
                 encode_tab = enc, decode_tab = dec\<rparr>))))"

definition decode :: "'c Key \<Rightarrow> 'c list \<Rightarrow> 'c list" where
  "decode k ciphertext = translate (decode_tab k) ciphertext"

definition encode :: "'c Key \<Rightarrow> 'c list \<Rightarrow> 'c list" where
  "encode k plaintext = translate (encode_tab k) plaintext"

subsection \<open>breaker.py: iterators and the rolling quadgram code\<close>

text \<open>
  \<^verbatim>\<open>trans = {val: key for key, val in enumerate(alphabet.lower())}\<close>: the index of a
  symbol, the last one where a symbol occurs twice.
\<close>

definition trans_table :: "('c \<Rightarrow> 'c) \<Rightarrow> 'c list \<Rightarrow> ('c \<rightharpoonup> nat)" where
  "trans_table lc alphabet = map_of (rev (zip (map lc alphabet) [0..<length alphabet]))"


text \<open>A file is the list of its lines.\<close>

definition file_iterator :: "('c \<Rightarrow> 'c) \<Rightarrow> 'c list list \<Rightarrow> 'c list \<Rightarrow> nat list" where
  "file_iterator lc file_fh alphabet =
     concat (map (\<lambda>line. List.map_filter (trans_table lc alphabet) (map lc line)) file_fh)"

text \<open>\<^verbatim>\<open>((quadgram_val & 0x7FFF) << 5) + numerical_char\<close>\<close>

definition roll :: "nat \<Rightarrow> nat \<Rightarrow> nat" where
  "roll quadgram_val numerical_char = push_bit 5 (quadgram_val AND 0x7FFF) + numerical_char"

fun index_e :: "'a list \<Rightarrow> 'a \<Rightarrow> error + nat" where
  "index_e [] x = Inl ValueError_index"
| "index_e (y # ys) x =
     (if y = x then Inr 0
      else case index_e ys x of Inl e \<Rightarrow> Inl e | Inr i \<Rightarrow> Inr (Suc i))"

subsection \<open>breaker.py: generate\_quadgrams\<close>

record 'c quadgram_file =
  qf_alphabet :: "'c list"
  qf_nbr_quadgrams :: nat
  qf_most_frequent_quadgram :: "'c list"
  qf_max_fitness :: int
  qf_average_fitness :: real
  qf_quadgrams :: "int list"

text \<open>The counting loop: \<^verbatim>\<open>quadgrams[quadgram_val] += 1\<close> for every further symbol.\<close>

fun count_quadgrams :: "nat \<Rightarrow> nat list \<Rightarrow> nat list \<Rightarrow> error + nat list" where
  "count_quadgrams quadgram_val [] quadgrams = Inr quadgrams"
| "count_quadgrams quadgram_val (numerical_char # rest) quadgrams =
     (let quadgram_val = roll quadgram_val numerical_char in
      if quadgram_val < length quadgrams
      then count_quadgrams quadgram_val rest
             (quadgrams[quadgram_val := quadgrams ! quadgram_val + 1])
      else Inl IndexError)"

text \<open>Python's \<^verbatim>\<open>round\<close> of a float to an integer: halves go to the even neighbour.\<close>

definition py_round :: "real \<Rightarrow> int" where
  "py_round x =
     (let f = \<lfloor>x\<rfloor>; d = x - of_int f in
      if d < 1 / 2 then f else if 1 / 2 < d then f + 1
      else if even f then f else f + 1)"

text \<open>
  The four symbols of a packed code, lowest field first, each put in front of the
  ones found before.
\<close>

fun decode_index :: "'c list \<Rightarrow> nat \<Rightarrow> nat \<Rightarrow> 'c list \<Rightarrow> error + 'c list" where
  "decode_index alphabet 0 index max_chars = Inr max_chars"
| "decode_index alphabet (Suc n) index max_chars =
     (case nth_e alphabet (index AND 0x1F) of
        Inl e \<Rightarrow> Inl e
      | Inr ch \<Rightarrow> decode_index alphabet n (drop_bit 5 index) (ch # max_chars))"

text \<open>
  The normalisation of the counts (from \<^verbatim>\<open>quadgram_sum = sum(quadgrams)\<close> to the loop
  that rounds). \<^verbatim>\<open>math.log\<close> is the natural logarithm of the reals; its arguments
  here are quotients of counts that the source has tested to be non-zero. The second
  loop of the source stores \<open>log(prop) - offset\<close> for the non-zero counts (\<open>logs\<close>) and
  adds up \<open>norm\<close>; the third turns every entry into \<open>round(entry / norm * 1000)\<close>.
\<close>

definition normalise :: "nat list \<Rightarrow> error + int list" where
  "normalise counts =
     (let quadgram_sum = sum_list counts;
          quadgram_min = fold (\<lambda>val m. if val \<noteq> 0 then min m val else m) counts 10000000
      in if quadgram_sum = 0 then Inl ZeroDivisionError
      else
        let offset = ln (real quadgram_min / 10 / real quadgram_sum);
            logs = map (\<lambda>val. if val \<noteq> 0
                          then ln (real val / real quadgram_sum) - offset else 0) counts;
            norm = sum_list (map (\<lambda>val. if val \<noteq> 0
                          then real val / real quadgram_sum
                                 * (ln (real val / real quadgram_sum) - offset)
                          else 0) counts)
        in if norm = 0 then Inl ZeroDivisionError
        else Inr (map (\<lambda>v. py_round (v / norm * 1000)) logs))"

text \<open>
  \<^verbatim>\<open>generate_quadgrams\<close>; the result is the object that is written to the quadgram file.
\<close>

definition generate_quadgrams ::
  "('c \<Rightarrow> 'c) \<Rightarrow> 'c list list \<Rightarrow> 'c list \<Rightarrow> error + 'c quadgram_file" where
  "generate_quadgrams lc corpus_fh alphabet =
     ebind (check_alphabet lc alphabet) (\<lambda>alphabet.
       if length alphabet > 32 then Inl AlphabetInvalid_too_long
       else case file_iterator lc corpus_fh alphabet of
         c0 # c1 # c2 # rest \<Rightarrow>
           ebind (count_quadgrams (push_bit 5 (push_bit 5 c0 + c1) + c2) rest
                    (replicate (32 * 32 * 32 * 32) 0)) (\<lambda>counts.
           ebind (normalise counts) (\<lambda>quadgrams.
           ebind (index_e quadgrams (Max (set quadgrams))) (\<lambda>max_idx.
           ebind (decode_index alphabet 4 max_idx []) (\<lambda>max_chars.
             if length alphabet = 0 then Inl ZeroDivisionError
             else Inr \<lparr>qf_alphabet = alphabet,
                       qf_nbr_quadgrams = sum_list counts,
                       qf_most_frequent_quadgram = max_chars,
                       qf_max_fitness = quadgrams ! max_idx,
                       qf_average_fitness =
                         real_of_int (sum_list quadgrams) / real (length alphabet ^ 4),
                       qf_quadgrams = quadgrams\<rparr>))))
       | _ \<Rightarrow> Inl StopIteration)"

subsection \<open>breaker.py: class Breaker, fitness\<close>

record 'c Breaker =
  b_alphabet :: "'c list"
  b_alphabet_len :: nat
  b_quadgrams :: "int list"
  b_key :: "'c Key option"

definition Breaker_init :: "'c quadgram_file \<Rightarrow> 'c Breaker" where
  "Breaker_init obj =
     \<lparr>b_alphabet = qf_alphabet obj, b_alphabet_len = length (qf_alphabet obj),
      b_quadgrams = qf_quadgrams obj, b_key = None\<rparr>"

fun fitness_loop :: "int list \<Rightarrow> nat \<Rightarrow> nat list \<Rightarrow> int \<Rightarrow> nat \<Rightarrow> error + int \<times> nat" where
  "fitness_loop quadgrams quadgram_val [] fitness nbr_quadgrams = Inr (fitness, nbr_quadgrams)"
| "fitness_loop quadgrams quadgram_val (numerical_char # rest) fitness nbr_quadgrams =
     (let quadgram_val = roll quadgram_val numerical_char in
      if quadgram_val < length quadgrams
      then fitness_loop quadgrams quadgram_val rest
             (fitness + quadgrams ! quadgram_val) (nbr_quadgrams + 1)
      else Inl IndexError)"

definition calc_fitness_iter :: "'c Breaker \<Rightarrow> nat list \<Rightarrow> error + rat" where
  "calc_fitness_iter self iterator =
     (case iterator of
        c0 # c1 # c2 # rest \<Rightarrow>
          (case fitness_loop (b_quadgrams self) (push_bit 5 (push_bit 5 c0 + c1) + c2) rest 0 0 of
             Inl e \<Rightarrow> Inl e
           | Inr (fitness, nbr_quadgrams) \<Rightarrow>
               if nbr_quadgrams = 0 then Inl ValueError_three_characters
               else Inr (of_int fitness / of_nat nbr_quadgrams / 10))
      | _ \<Rightarrow> Inl ValueError_three_characters)"


definition calc_fitness_file :: "('c \<Rightarrow> 'c) \<Rightarrow> 'c Breaker \<Rightarrow> 'c list list \<Rightarrow> error + rat" where
  "calc_fitness_file lc self cleartext_fh =
     calc_fitness_iter self (file_iterator lc cleartext_fh (b_alphabet self))"

subsection \<open>breaker.py: the hill climber\<close>

record hc_state =
  hc_key :: "nat list"
  hc_plaintext :: "nat list"
  hc_nbr_keys :: nat
  hc_max_fitness :: int
  hc_better_key :: bool

text \<open>\<^verbatim>\<open>for idx in positions: plaintext[idx] = v\<close>\<close>

fun set_all :: "nat list \<Rightarrow> nat \<Rightarrow> nat list \<Rightarrow> error + nat list" where
  "set_all [] v plaintext = Inr plaintext"
| "set_all (idx # rest) v plaintext =
     (if idx < length plaintext then set_all rest v (plaintext[idx := v])
      else Inl IndexError)"

fun score_loop :: "int list \<Rightarrow> nat \<Rightarrow> nat list \<Rightarrow> int \<Rightarrow> error + int" where
  "score_loop quadgram quad_idx [] tmp_fitness = Inr tmp_fitness"
| "score_loop quadgram quad_idx (char # rest) tmp_fitness =
     (let quad_idx = roll quad_idx char in
      if quad_idx < length quadgram
      then score_loop quadgram quad_idx rest (tmp_fitness + quadgram ! quad_idx)
      else Inl IndexError)"

text \<open>The rescoring of the whole plaintext array in one pair trial.\<close>

definition score :: "int list \<Rightarrow> nat list \<Rightarrow> error + int" where
  "score quadgram plaintext =
     (case plaintext of
        p0 # p1 # p2 # rest \<Rightarrow>
          score_loop quadgram (push_bit 10 p0 + push_bit 5 p1 + p2) rest 0
      | _ \<Rightarrow> Inl IndexError)"

text \<open>One pair trial: the body of the two nested \<^verbatim>\<open>for\<close> loops.\<close>

definition trial ::
  "int list \<Rightarrow> nat list list \<Rightarrow> nat \<Rightarrow> nat \<Rightarrow> hc_state \<Rightarrow> error + hc_state" where
  "trial quadgram char_positions idx1 idx2 st =
     ebind (nth_e (hc_key st) idx1) (\<lambda>ch1.
     ebind (nth_e (hc_key st) idx2) (\<lambda>ch2.
     ebind (nth_e char_positions ch1) (\<lambda>pos1.
     ebind (set_all pos1 idx2 (hc_plaintext st)) (\<lambda>plaintext1.
     ebind (nth_e char_positions ch2) (\<lambda>pos2.
     ebind (set_all pos2 idx1 plaintext1) (\<lambda>plaintext2.
     ebind (score quadgram plaintext2) (\<lambda>tmp_fitness.
       if tmp_fitness > hc_max_fitness st
       then Inr (st\<lparr>hc_plaintext := plaintext2,
                     hc_nbr_keys := hc_nbr_keys st + 1,
                     hc_max_fitness := tmp_fitness,
                     hc_better_key := True,
                     hc_key := (hc_key st)[idx1 := ch2, idx2 := ch1]\<rparr>)
       else
         ebind (set_all pos1 idx1 plaintext2) (\<lambda>plaintext3.
         ebind (set_all pos2 idx2 plaintext3) (\<lambda>plaintext4.
           Inr (st\<lparr>hc_plaintext := plaintext4,
                    hc_nbr_keys := hc_nbr_keys st + 1\<rparr>))))))))))"

text \<open>One run of the body of \<^verbatim>\<open>while better_key\<close>: all pairs \<open>idx1 < idx2\<close>.\<close>

definition pass :: "int list \<Rightarrow> nat list list \<Rightarrow> nat \<Rightarrow> hc_state \<Rightarrow> error + hc_state" where
  "pass quadgram char_positions key_len st =
     efold (\<lambda>idx1. efold (\<lambda>idx2. trial quadgram char_positions idx1 idx2)
                           [idx1 + 1 ..< key_len])
       [0 ..< key_len - 1] (st\<lparr>hc_better_key := False\<rparr>)"

text \<open>
  The loop \<^verbatim>\<open>while better_key\<close> ends: a pass that accepts a swap raises \<open>max_fitness\<close>,
  and no score of a text of this length exceeds \<open>fit_bound\<close>, the number of its
  quadgrams times the largest table entry.
\<close>

definition fit_bound :: "int list \<Rightarrow> nat list \<Rightarrow> int" where
  "fit_bound quadgram plaintext = int (length plaintext - 3) * Max (insert 0 (set quadgram))"

lemma efold_invariant:
  assumes run: "efold f xs s = Inr s'" and init: "P s"
    and step: "\<And>x s s'. x \<in> set xs \<Longrightarrow> P s \<Longrightarrow> f x s = Inr s' \<Longrightarrow> P s'"
  shows "P s'"
  using assms
proof (induction xs arbitrary: s)
  case Nil
  then show ?case by simp
next
  case (Cons x xs)
  from Cons.prems(1) obtain s1 where s1: "f x s = Inr s1" and rest: "efold f xs s1 = Inr s'"
    by (auto split: sum.splits)
  have P1: "P s1" using Cons.prems(3) [of x s s1] Cons.prems(2) s1 by simp
  show ?case
  proof (rule Cons.IH [OF rest P1])
    fix y t t'
    assume "y \<in> set xs" "P t" "f y t = Inr t'"
    then show "P t'" using Cons.prems(3) [of y t t'] by simp
  qed
qed

lemma set_all_length: "set_all ps v pt = Inr pt' \<Longrightarrow> length pt' = length pt"
  by (induction ps arbitrary: pt) (auto split: if_splits)

lemma score_loop_le:
  "score_loop q qi cs acc = Inr s \<Longrightarrow> s \<le> acc + int (length cs) * Max (insert 0 (set q))"
proof (induction cs arbitrary: qi acc)
  case Nil
  then show ?case by simp
next
  case (Cons c cs)
  let ?i = "roll qi c"
  from Cons.prems have i: "?i < length q"
    and rest: "score_loop q ?i cs (acc + q ! ?i) = Inr s"
    by (auto simp: Let_def split: if_splits)
  have "q ! ?i \<le> Max (insert 0 (set q))" using i by simp
  moreover have "s \<le> acc + q ! ?i + int (length cs) * Max (insert 0 (set q))"
    using Cons.IH [OF rest] .
  ultimately show ?case by (simp add: algebra_simps)
qed

lemma score_le: "score q pt = Inr s \<Longrightarrow> s \<le> fit_bound q pt"
  unfolding score_def fit_bound_def
  by (auto split: list.splits dest: score_loop_le)

definition pass_inv :: "int list \<Rightarrow> hc_state \<Rightarrow> hc_state \<Rightarrow> bool" where
  "pass_inv q s0 st \<longleftrightarrow>
     length (hc_plaintext st) = length (hc_plaintext s0)
     \<and> hc_max_fitness s0 \<le> hc_max_fitness st
     \<and> (hc_better_key st \<longrightarrow>
          hc_max_fitness s0 < hc_max_fitness st
          \<and> hc_max_fitness st \<le> fit_bound q (hc_plaintext s0))"

lemma trial_pass_inv:
  assumes "pass_inv q s0 st" "trial q cp i j st = Inr st'"
  shows "pass_inv q s0 st'"
proof -
  from assms(2) obtain ch1 ch2 pos1 pt1 pos2 pt2 tmp where
    a: "set_all pos1 j (hc_plaintext st) = Inr pt1" "set_all pos2 i pt1 = Inr pt2"
      "score q pt2 = Inr tmp"
    and r: "(if tmp > hc_max_fitness st
       then Inr (st\<lparr>hc_plaintext := pt2,
                     hc_nbr_keys := hc_nbr_keys st + 1,
                     hc_max_fitness := tmp,
                     hc_better_key := True,
                     hc_key := (hc_key st)[i := ch2, j := ch1]\<rparr>)
       else
         ebind (set_all pos1 i pt2) (\<lambda>plaintext3.
         ebind (set_all pos2 j plaintext3) (\<lambda>plaintext4.
           Inr (st\<lparr>hc_plaintext := plaintext4,
                    hc_nbr_keys := hc_nbr_keys st + 1\<rparr>)))) = Inr st'"
    unfolding trial_def ebind_Inr_iff by blast
  have len2: "length pt2 = length (hc_plaintext st)"
    using a by (simp add: set_all_length)
  have tmp: "tmp \<le> fit_bound q (hc_plaintext s0)"
    using score_le [OF a(3)] len2 assms(1) by (simp add: fit_bound_def pass_inv_def)
  show ?thesis
  proof (cases "tmp > hc_max_fitness st")
    case True
    with r have "st' = st\<lparr>hc_plaintext := pt2,
                     hc_nbr_keys := hc_nbr_keys st + 1,
                     hc_max_fitness := tmp,
                     hc_better_key := True,
                     hc_key := (hc_key st)[i := ch2, j := ch1]\<rparr>" by simp
    then show ?thesis using True tmp len2 assms(1) by (simp add: pass_inv_def)
  next
    case False
    with r obtain pt3 pt4 where b: "set_all pos1 i pt2 = Inr pt3" "set_all pos2 j pt3 = Inr pt4"
      and st': "st' = st\<lparr>hc_plaintext := pt4, hc_nbr_keys := hc_nbr_keys st + 1\<rparr>"
      by (auto simp: ebind_Inr_iff)
    have "length pt4 = length (hc_plaintext st)"
      using b len2 by (simp add: set_all_length)
    then show ?thesis using st' assms(1) by (simp add: pass_inv_def)
  qed
qed

lemma pass_pass_inv:
  assumes "pass q cp n st = Inr st'"
  shows "pass_inv q st st'"
proof -
  let ?s0 = "st\<lparr>hc_better_key := False\<rparr>"
  have init: "pass_inv q ?s0 ?s0" by (simp add: pass_inv_def)
  have inner: "pass_inv q ?s0 s'"
    if "pass_inv q ?s0 s" "efold (\<lambda>idx2. trial q cp i idx2) js s = Inr s'" for i js s s'
    using that(2) that(1)
    by (rule efold_invariant) (auto intro: trial_pass_inv)
  have "pass_inv q ?s0 st'"
    using assms init unfolding pass_def
    by (rule efold_invariant) (auto intro: inner)
  then show ?thesis by (simp add: pass_inv_def)
qed

function climb :: "int list \<Rightarrow> nat list list \<Rightarrow> nat \<Rightarrow> hc_state \<Rightarrow> error + hc_state" where
  "climb quadgram char_positions key_len st =
     (case pass quadgram char_positions key_len st of
        Inl e \<Rightarrow> Inl e
      | Inr st' \<Rightarrow>
          if hc_better_key st' then climb quadgram char_positions key_len st' else Inr st')"
  by pat_completeness auto
termination
proof (relation "measure (\<lambda>(q, cp, n, st). nat (fit_bound q (hc_plaintext st) - hc_max_fitness st))")
  show "wf (measure (\<lambda>(q, cp, n, st). nat (fit_bound q (hc_plaintext st) - hc_max_fitness st)))"
    by simp
next
  fix quadgram char_positions key_len st st'
  assume p: "pass quadgram char_positions key_len st = Inr st'" and b: "hc_better_key st'"
  from pass_pass_inv [OF p] b
  have "hc_max_fitness st < hc_max_fitness st'"
    "hc_max_fitness st' \<le> fit_bound quadgram (hc_plaintext st)"
    "length (hc_plaintext st') = length (hc_plaintext st)"
    by (simp_all add: pass_inv_def)
  then show "((quadgram, char_positions, key_len, st'), (quadgram, char_positions, key_len, st))
    \<in> measure (\<lambda>(q, cp, n, st). nat (fit_bound q (hc_plaintext st) - hc_max_fitness st))"
    by (simp add: fit_bound_def)
qed

declare climb.simps [simp del]


subsection \<open>breaker.py: break\_cipher\<close>









subsection \<open>Properties of Key\<close>

lemma length_card_distinct: "(length xs = card (set xs)) = distinct xs"
  by (metis distinct_card card_distinct)

lemma check_alphabet_Inr: "check_alphabet lc alphabet = Inr a \<longleftrightarrow> a = map lc alphabet \<and> distinct a"
  unfolding check_alphabet_def Let_def length_card_distinct[symmetric] by auto

lemma check_key_Inr:
  "check_key lc key alphabet = Inr k \<longleftrightarrow>
     k = map lc key \<and> distinct k \<and> length k = length alphabet \<and> set k = set alphabet"
  unfolding check_key_def Let_def length_card_distinct[symmetric] by auto

lemma map_of_rev_distinct: "distinct (map fst ps) \<Longrightarrow> map_of (rev ps) = map_of ps"
proof (induction ps)
  case Nil
  then show ?case by simp
next
  case (Cons p ps)
  obtain a b where p: "p = (a, b)" by (cases p)
  from Cons.prems p have notin: "a \<notin> fst ` set ps" and d: "distinct (map fst ps)" by auto
  have "map_of (rev (p # ps)) = map_of [p] ++ map_of (rev ps)"
    by (simp add: map_of_append)
  also have "\<dots> = map_of [p] ++ map_of ps" using Cons.IH d by simp
  also have "\<dots> = map_of (p # ps)"
  proof (rule ext)
    fix x
    from notin have "map_of ps a = None" by (simp add: map_of_eq_None_iff)
    then show "(map_of [p] ++ map_of ps) x = map_of (p # ps) x"
      using p by (cases "x = a") (simp_all add: map_add_def split: option.splits)
  qed
  finally show ?case .
qed

lemma maketrans_lookup:
  assumes "length us = length vs" "length xs = length ys" "distinct xs" "i < length xs"
  shows "map_of (rev (zip (us @ xs) (vs @ ys))) (xs ! i) = Some (ys ! i)"
proof -
  have "map_of (rev (zip xs ys)) (xs ! i) = Some (ys ! i)"
    using assms by (simp add: map_of_rev_distinct map_of_zip_nth)
  then show ?thesis using assms(1)
    by (simp add: map_of_append map_add_def)
qed

lemma maketrans_dom:
  "length xs = length ys \<Longrightarrow> dom (map_of (rev (zip xs ys))) = set xs"
  by (simp add: dom_map_of_conv_image_fst flip: set_map)

lemma Key_init_Inr:
  assumes "Key_init lc uc key alphabet = Inr k"
  shows "alphabet_of k = map lc alphabet \<and> key_of k = map lc key
    \<and> distinct (alphabet_of k) \<and> distinct (key_of k)
    \<and> length key = length alphabet \<and> set (key_of k) = set (alphabet_of k)
    \<and> encode_tab k = map_of (rev (zip (upper_safe uc alphabet @ map lc alphabet)
                                       (upper_safe uc key @ map lc key)))
    \<and> decode_tab k = map_of (rev (zip (upper_safe uc key @ map lc key)
                                       (upper_safe uc alphabet @ map lc alphabet)))"
  using assms
  by (auto simp: Key_init_def ebind_Inr_iff check_alphabet_Inr check_key_Inr maketrans_def Let_def
      split: if_splits)



lemma map_of_zip_None: "length xs = length ys \<Longrightarrow> c \<notin> set xs \<Longrightarrow> map_of (zip xs ys) c = None"
  by (simp add: map_of_eq_None_iff flip: set_map)

lemma map_of_rev_zip:
  "distinct xs \<Longrightarrow> length xs = length ys \<Longrightarrow> map_of (rev (zip xs ys)) = map_of (zip xs ys)"
  by (rule map_of_rev_distinct) simp

text \<open>
  Two strings without repeated characters and with the same characters give two tables
  that are inverse to each other.
\<close>

lemma tables_inverse:
  assumes d: "distinct xs" "distinct ys" and len: "length xs = length ys"
    and sets: "set xs = set ys"
  shows "(case map_of (zip ys xs) (case map_of (zip xs ys) c of None \<Rightarrow> c | Some d \<Rightarrow> d) of
            None \<Rightarrow> (case map_of (zip xs ys) c of None \<Rightarrow> c | Some d \<Rightarrow> d)
          | Some d \<Rightarrow> d) = c"
proof (cases "c \<in> set xs")
  case True
  then obtain i where i: "i < length xs" "c = xs ! i"
    by (metis in_set_conv_nth)
  have "map_of (zip xs ys) (xs ! i) = Some (ys ! i)"
    using d(1) len i(1) by (simp add: map_of_zip_nth)
  moreover have "map_of (zip ys xs) (ys ! i) = Some (xs ! i)"
    using d(2) len i(1) by (simp add: map_of_zip_nth)
  ultimately show ?thesis using i(2) by simp
next
  case False
  then have "map_of (zip xs ys) c = None" "map_of (zip ys xs) c = None"
    using len sets by (simp_all add: map_of_zip_None)
  then show ?thesis by simp
qed

text \<open>
  Claim C3, as amended. Let \<open>Key.__init__\<close> accept the key and the alphabet. If the two
  strings the tables are built from are free of collisions (the upper-cased symbols
  followed by the lower-cased ones are pairwise distinct, for the alphabet and for the
  key, and the upper-cased key has the symbols of the upper-cased alphabet), every text
  is given back by decoding its encoding and by encoding its decoding. Whatever the
  tables, so is every text each of whose characters is a symbol of the lower-cased
  alphabet or is a key of neither translation table.
\<close>

theorem Key_roundtrip:
  assumes ok: "Key_init lc uc key alphabet = Inr k"
    and chars:
      "(distinct (upper_safe uc alphabet @ map lc alphabet)
          \<and> distinct (upper_safe uc key @ map lc key)
          \<and> set (upper_safe uc key) = set (upper_safe uc alphabet))
       \<or> (\<forall>c \<in> set t. c \<in> set (alphabet_of k)
                \<or> (c \<notin> dom (encode_tab k) \<and> c \<notin> dom (decode_tab k)))"
  shows "decode k (encode k t) = t \<and> encode k (decode k t) = t"
proof -
  note K = Key_init_Inr [OF ok]
  let ?a = "map lc alphabet" and ?k = "map lc key"
  let ?X = "upper_safe uc alphabet @ map lc alphabet" and ?Y = "upper_safe uc key @ map lc key"
  have len: "length ?a = length ?k" "length (upper_safe uc alphabet) = length (upper_safe uc key)"
    using K by (simp_all add: upper_safe_def)
  have da: "distinct ?a" and dk: "distinct ?k" and sets: "set ?k = set ?a"
    using K by auto
  have one: "(case decode_tab k (case encode_tab k c of None \<Rightarrow> c | Some d \<Rightarrow> d) of
                None \<Rightarrow> (case encode_tab k c of None \<Rightarrow> c | Some d \<Rightarrow> d) | Some d \<Rightarrow> d) = c
            \<and> (case encode_tab k (case decode_tab k c of None \<Rightarrow> c | Some d \<Rightarrow> d) of
                None \<Rightarrow> (case decode_tab k c of None \<Rightarrow> c | Some d \<Rightarrow> d) | Some d \<Rightarrow> d) = c"
    if c: "c \<in> set t" for c
  proof (cases "distinct ?X \<and> distinct ?Y \<and> set (upper_safe uc key) = set (upper_safe uc alphabet)")
    case True
    have lenXY: "length ?X = length ?Y" using len by simp
    have setXY: "set ?X = set ?Y" using True sets by simp
    from True have dX: "distinct ?X" and dY: "distinct ?Y" by blast+
    have "encode_tab k = map_of (rev (zip ?X ?Y))" using K by blast
    also have "\<dots> = map_of (zip ?X ?Y)" by (rule map_of_rev_zip [OF dX lenXY])
    finally have e: "encode_tab k = map_of (zip ?X ?Y)" .
    have "decode_tab k = map_of (rev (zip ?Y ?X))" using K by blast
    also have "\<dots> = map_of (zip ?Y ?X)" by (rule map_of_rev_zip [OF dY lenXY [symmetric]])
    finally have d: "decode_tab k = map_of (zip ?Y ?X)" .
    show ?thesis
      unfolding e d
      using tables_inverse [OF dX dY lenXY setXY, of c]
        tables_inverse [OF dY dX lenXY [symmetric] setXY [symmetric], of c]
      by blast
  next
    case False
    with chars have cls: "\<forall>c \<in> set t. c \<in> set (alphabet_of k)
                \<or> (c \<notin> dom (encode_tab k) \<and> c \<notin> dom (decode_tab k))"
      by blast
    have enc: "encode_tab k (?a ! i) = Some (?k ! i)" if "i < length ?a" for i
      using K maketrans_lookup [OF len(2) len(1) da that] by simp
    have dec: "decode_tab k (?k ! i) = Some (?a ! i)" if "i < length ?k" for i
      using K maketrans_lookup [OF len(2)[symmetric] len(1)[symmetric] dk that] by simp
    show ?thesis
    proof (cases "c \<in> set (alphabet_of k)")
      case True
      then obtain i where i: "i < length ?a" "c = ?a ! i"
        using K by (metis in_set_conv_nth)
      from True sets K obtain j where j: "j < length ?k" "c = ?k ! j"
        by (metis in_set_conv_nth)
      show ?thesis
        using i j enc [of i] dec [of i] enc [of j] dec [of j] len by simp
    next
      case False
      with cls c have "encode_tab k c = None" "decode_tab k c = None" by (auto simp: domIff)
      then show ?thesis by simp
    qed
  qed
  show ?thesis
    unfolding decode_def encode_def translate_def
    by (simp add: map_idI one)
qed

text \<open>
  Claim C3 as stated fails: with alphabet \<open>a1\<close> and key \<open>1a\<close> (unique symbols, same
  length, same symbol set) the upper-case \<open>A\<close> is encoded to \<open>1\<close>, which has no case, and
  decoded to the lower-case \<open>a\<close>.
\<close>

theorem Key_roundtrip_counterexample:
  "\<not> isl (Key_init ascii_lower ascii_upper ''1a'' ''a1'') \<and>
   decode (projr (Key_init ascii_lower ascii_upper ''1a'' ''a1''))
     (encode (projr (Key_init ascii_lower ascii_upper ''1a'' ''a1'')) ''A'') = ''a''"
  by code_simp

text \<open>
  The round trip at two inputs: a mixed-case text under the collision-free tables of
  alphabet \<open>abc\<close> and key \<open>bca\<close>, and a lower-case text under the colliding tables of
  alphabet \<open>a1\<close> and key \<open>1a\<close>.
\<close>

theorem Key_roundtrip_witness:
  "decode (projr (Key_init ascii_lower ascii_upper ''bca'' ''abc''))
     (encode (projr (Key_init ascii_lower ascii_upper ''bca'' ''abc'')) ''Cab, A b!'') = ''Cab, A b!''
   \<and> encode (projr (Key_init ascii_lower ascii_upper ''bca'' ''abc''))
     (decode (projr (Key_init ascii_lower ascii_upper ''bca'' ''abc'')) ''Cab, A b!'') = ''Cab, A b!''
   \<and> decode (projr (Key_init ascii_lower ascii_upper ''1a'' ''a1''))
     (encode (projr (Key_init ascii_lower ascii_upper ''1a'' ''a1'')) ''a1 1a!'') = ''a1 1a!''
   \<and> encode (projr (Key_init ascii_lower ascii_upper ''1a'' ''a1''))
     (decode (projr (Key_init ascii_lower ascii_upper ''1a'' ''a1'')) ''a1 1a!'') = ''a1 1a!''"
proof -
  let ?K = "projr (Key_init ascii_lower ascii_upper ''bca'' ''abc'')"
  let ?L = "projr (Key_init ascii_lower ascii_upper ''1a'' ''a1'')"
  have "\<not> isl (Key_init ascii_lower ascii_upper ''bca'' ''abc'')"
    by code_simp
  then have okK: "Key_init ascii_lower ascii_upper ''bca'' ''abc'' = Inr ?K"
    by simp
  have free: "distinct (upper_safe ascii_upper ''abc'' @ map ascii_lower ''abc'')
          \<and> distinct (upper_safe ascii_upper ''bca'' @ map ascii_lower ''bca'')
          \<and> set (upper_safe ascii_upper ''bca'') = set (upper_safe ascii_upper ''abc'')"
    by code_simp
  have "\<not> isl (Key_init ascii_lower ascii_upper ''1a'' ''a1'')"
    by code_simp
  then have okL: "Key_init ascii_lower ascii_upper ''1a'' ''a1'' = Inr ?L"
    by simp
  have chars: "\<forall>c \<in> set ''a1 1a!''. c \<in> set (alphabet_of ?L)
                \<or> (c \<notin> dom (encode_tab ?L) \<and> c \<notin> dom (decode_tab ?L))"
    unfolding domIff by code_simp
  from Key_roundtrip [OF okK disjI1 [OF free], of "''Cab, A b!''"]
    Key_roundtrip [OF okL disjI2 [OF chars]]
  show ?thesis by simp
qed

subsection \<open>The rolling code stays inside the table\<close>




lemma and_1F: "(q::nat) AND 0x1F = q mod 32"
proof -
  have m: "(0x1F::nat) = mask 5" by (simp add: mask_eq_exp_minus_1)
  have "q AND mask 5 = q mod 2 ^ 5" by (simp only: take_bit_eq_mod flip: take_bit_eq_mask)
  then show ?thesis unfolding m by simp
qed


lemma trans_table_less: "trans_table lc alphabet c = Some i \<Longrightarrow> i < length alphabet"
proof -
  assume "trans_table lc alphabet c = Some i"
  then have "(c, i) \<in> set (rev (zip (map lc alphabet) [0..<length alphabet]))"
    unfolding trans_table_def by (rule map_of_SomeD)
  then have "i \<in> set [0..<length alphabet]"
    by (auto dest: set_zip_rightD)
  then show ?thesis by simp
qed

lemma set_map_filter_iff: "y \<in> set (List.map_filter f xs) \<longleftrightarrow> (\<exists>x \<in> set xs. f x = Some y)"
  by (induction xs) (auto split: option.splits)


lemma file_iterator_less:
  "c \<in> set (file_iterator lc file_fh alphabet) \<Longrightarrow> c < length alphabet"
  by (auto simp: file_iterator_def set_map_filter_iff dest: trans_table_less)









subsection \<open>The invariant of the hill climber\<close>

text \<open>
  \<open>is_permutation n key\<close>: every value \<open>0..n-1\<close> occurs in \<open>key\<close> exactly once.
  \<open>char_positions_ok\<close>: entry \<open>ch\<close> of \<open>char_positions\<close> lists the positions of \<open>ch\<close> in the
  ciphertext. \<open>coherent\<close>: in addition, \<open>plaintext[p]\<close> is the index at which the key holds
  the ciphertext symbol at \<open>p\<close>. \<open>swapped\<close>: a plaintext array with two symbols exchanged.
\<close>

definition is_permutation :: "nat \<Rightarrow> nat list \<Rightarrow> bool" where
  "is_permutation n key \<longleftrightarrow> distinct key \<and> set key = {0..<n}"

definition char_positions_ok :: "nat \<Rightarrow> nat list \<Rightarrow> nat list list \<Rightarrow> bool" where
  "char_positions_ok n cipher_bin char_positions \<longleftrightarrow>
     length char_positions = n
     \<and> (\<forall>ch < n. set (char_positions ! ch) = {p. p < length cipher_bin \<and> cipher_bin ! p = ch})"

definition coherent :: "nat \<Rightarrow> nat list \<Rightarrow> nat list list \<Rightarrow> hc_state \<Rightarrow> bool" where
  "coherent n cipher_bin char_positions st \<longleftrightarrow>
     is_permutation n (hc_key st)
     \<and> char_positions_ok n cipher_bin char_positions
     \<and> length (hc_plaintext st) = length cipher_bin
     \<and> (\<forall>p < length cipher_bin.
           hc_plaintext st ! p < n \<and> hc_key st ! (hc_plaintext st ! p) = cipher_bin ! p)"

definition swapped :: "nat \<Rightarrow> nat \<Rightarrow> nat list \<Rightarrow> nat list" where
  "swapped idx1 idx2 plaintext =
     map (\<lambda>v. if v = idx1 then idx2 else if v = idx2 then idx1 else v) plaintext"

lemma is_permutation_length: "is_permutation n key \<Longrightarrow> length key = n"
  unfolding is_permutation_def by (metis distinct_card card_atLeastLessThan diff_zero)

lemma is_permutation_mset: "is_permutation n key \<longleftrightarrow> mset key = mset [0..<n]"
proof
  assume "is_permutation n key"
  then have "distinct key" "set key = set [0..<n]" by (simp_all add: is_permutation_def)
  then show "mset key = mset [0..<n]"
    using set_eq_iff_mset_eq_distinct [of key "[0..<n]"] by (simp del: mset_upt)
next
  assume m: "mset key = mset [0..<n]"
  then have "set key = set [0..<n]" by (rule mset_eq_setD)
  moreover have "distinct key" using m by (metis distinct_upt mset_eq_imp_distinct_iff)
  ultimately show "is_permutation n key" by (simp add: is_permutation_def)
qed


lemma is_permutation_swap:
  assumes "is_permutation n key" "i < length key" "j < length key"
  shows "is_permutation n (key[i := key ! j, j := key ! i])"
  using assms by (simp add: is_permutation_mset mset_swap)

lemma set_all_in_range: "set_all ps v pt = Inr pt' \<Longrightarrow> \<forall>p \<in> set ps. p < length pt"
proof (induction ps arbitrary: pt)
  case Nil
  then show ?case by simp
next
  case (Cons idx rest)
  from Cons.prems have idx: "idx < length pt" and r: "set_all rest v (pt[idx := v]) = Inr pt'"
    by (simp_all split: if_splits)
  from Cons.IH [OF r] idx show ?case by simp
qed

lemma set_all_Inr:
  "\<forall>p \<in> set ps. p < length pt
    \<Longrightarrow> set_all ps v pt = Inr (map (\<lambda>p. if p \<in> set ps then v else pt ! p) [0..<length pt])"
proof (induction ps arbitrary: pt)
  case Nil
  then show ?case by (simp add: map_nth)
next
  case (Cons idx rest)
  then have idx: "idx < length pt" and rest: "\<forall>p \<in> set rest. p < length (pt[idx := v])"
    by simp_all
  have "set_all (idx # rest) v pt = set_all rest v (pt[idx := v])" using idx by simp
  also have "\<dots> = Inr (map (\<lambda>p. if p \<in> set rest then v else pt[idx := v] ! p)
                         [0..<length (pt[idx := v])])"
    by (rule Cons.IH [OF rest])
  also have "map (\<lambda>p. if p \<in> set rest then v else pt[idx := v] ! p) [0..<length (pt[idx := v])]
       = map (\<lambda>p. if p \<in> set (idx # rest) then v else pt ! p) [0..<length pt]"
    by (auto simp: nth_list_update)
  finally show ?case .
qed

lemma set_all_result:
  assumes "set_all ps v pt = Inr pt'"
  shows "length pt' = length pt"
    and "p < length pt \<Longrightarrow> pt' ! p = (if p \<in> set ps then v else pt ! p)"
  using set_all_Inr [OF set_all_in_range [OF assms], of v] assms by auto


lemma positions_eq:
  assumes coh: "coherent n cb cp st" and i: "i < n"
  shows "set (cp ! (hc_key st ! i)) = {p. p < length (hc_plaintext st) \<and> hc_plaintext st ! p = i}"
proof -
  let ?key = "hc_key st" and ?pt = "hc_plaintext st"
  from coh have perm: "is_permutation n ?key" and cpok: "char_positions_ok n cb cp"
    and len: "length ?pt = length cb"
    and pt: "\<And>p. p < length cb \<Longrightarrow> ?pt ! p < n \<and> ?key ! (?pt ! p) = cb ! p"
    by (simp_all add: coherent_def)
  have lk: "length ?key = n" using perm by (rule is_permutation_length)
  have d: "distinct ?key" using perm by (simp add: is_permutation_def)
  have "?key ! i \<in> set ?key" using i lk by simp
  then have ch: "?key ! i < n" using perm by (simp add: is_permutation_def)
  have "set (cp ! (?key ! i)) = {p. p < length cb \<and> cb ! p = ?key ! i}"
    using cpok ch by (simp add: char_positions_ok_def)
  also have "\<dots> = {p. p < length ?pt \<and> ?pt ! p = i}"
  proof (rule Collect_cong)
    fix p
    show "(p < length cb \<and> cb ! p = ?key ! i) \<longleftrightarrow> (p < length ?pt \<and> ?pt ! p = i)"
    proof (cases "p < length cb")
      case True
      then have "?pt ! p < n" "?key ! (?pt ! p) = cb ! p" using pt by simp_all
      then show ?thesis
        using True len i lk d by (auto simp: nth_eq_iff_index_eq)
    next
      case False
      then show ?thesis using len by simp
    qed
  qed
  finally show ?thesis .
qed

lemma tentative_swap:
  assumes coh: "coherent n cb cp st" and ij: "i < j" "j < n"
  shows "\<exists>pt1. set_all (cp ! (hc_key st ! i)) j (hc_plaintext st) = Inr pt1
      \<and> set_all (cp ! (hc_key st ! j)) i pt1 = Inr (swapped i j (hc_plaintext st))"
proof -
  let ?pt = "hc_plaintext st"
  let ?pos1 = "cp ! (hc_key st ! i)" and ?pos2 = "cp ! (hc_key st ! j)"
  have p1: "set ?pos1 = {p. p < length ?pt \<and> ?pt ! p = i}"
    using positions_eq [OF coh, of i] ij by simp
  have p2: "set ?pos2 = {p. p < length ?pt \<and> ?pt ! p = j}"
    using positions_eq [OF coh, of j] ij by simp
  let ?pt1 = "map (\<lambda>p. if p \<in> set ?pos1 then j else ?pt ! p) [0..<length ?pt]"
  have a: "set_all ?pos1 j ?pt = Inr ?pt1"
    by (rule set_all_Inr) (simp add: p1)
  have "set_all ?pos2 i ?pt1 = Inr (map (\<lambda>p. if p \<in> set ?pos2 then i else ?pt1 ! p) [0..<length ?pt1])"
    by (rule set_all_Inr) (simp add: p2)
  also have "map (\<lambda>p. if p \<in> set ?pos2 then i else ?pt1 ! p) [0..<length ?pt1] = swapped i j ?pt"
    using ij by (intro nth_equalityI) (auto simp: swapped_def p1 p2)
  finally show ?thesis using a by blast
qed

lemma restore_swap:
  assumes coh: "coherent n cb cp st" and ij: "i < j" "j < n"
  shows "\<exists>pt3. set_all (cp ! (hc_key st ! i)) i (swapped i j (hc_plaintext st)) = Inr pt3
      \<and> set_all (cp ! (hc_key st ! j)) j pt3 = Inr (hc_plaintext st)"
proof -
  let ?pt = "hc_plaintext st"
  let ?sw = "swapped i j ?pt"
  let ?pos1 = "cp ! (hc_key st ! i)" and ?pos2 = "cp ! (hc_key st ! j)"
  have p1: "set ?pos1 = {p. p < length ?pt \<and> ?pt ! p = i}"
    using positions_eq [OF coh, of i] ij by simp
  have p2: "set ?pos2 = {p. p < length ?pt \<and> ?pt ! p = j}"
    using positions_eq [OF coh, of j] ij by simp
  have lsw: "length ?sw = length ?pt" by (simp add: swapped_def)
  let ?pt3 = "map (\<lambda>p. if p \<in> set ?pos1 then i else ?sw ! p) [0..<length ?sw]"
  have a: "set_all ?pos1 i ?sw = Inr ?pt3"
    by (rule set_all_Inr) (simp add: p1 lsw)
  have "set_all ?pos2 j ?pt3 = Inr (map (\<lambda>p. if p \<in> set ?pos2 then j else ?pt3 ! p) [0..<length ?pt3])"
    by (rule set_all_Inr) (simp add: p2 lsw)
  also have "map (\<lambda>p. if p \<in> set ?pos2 then j else ?pt3 ! p) [0..<length ?pt3] = ?pt"
    using ij by (intro nth_equalityI) (auto simp: swapped_def p1 p2)
  finally show ?thesis using a by blast
qed

text \<open>Under the invariant, a trial is the scoring of the swapped text and the decision.\<close>

lemma trial_coherent:
  assumes coh: "coherent n cb cp st" and ij: "i < j" "j < n"
  shows "trial q cp i j st =
     ebind (score q (swapped i j (hc_plaintext st))) (\<lambda>tmp_fitness.
       if tmp_fitness > hc_max_fitness st
       then Inr (st\<lparr>hc_plaintext := swapped i j (hc_plaintext st),
                     hc_nbr_keys := hc_nbr_keys st + 1,
                     hc_max_fitness := tmp_fitness,
                     hc_better_key := True,
                     hc_key := (hc_key st)[i := hc_key st ! j, j := hc_key st ! i]\<rparr>)
       else Inr (st\<lparr>hc_plaintext := hc_plaintext st,
                     hc_nbr_keys := hc_nbr_keys st + 1\<rparr>))"
proof -
  let ?key = "hc_key st"
  from coh have perm: "is_permutation n ?key" and cpok: "char_positions_ok n cb cp"
    by (simp_all add: coherent_def)
  have lk: "length ?key = n" using perm by (rule is_permutation_length)
  have "?key ! i \<in> set ?key" "?key ! j \<in> set ?key" using ij lk by simp_all
  then have ch: "?key ! i < n" "?key ! j < n" using perm by (simp_all add: is_permutation_def)
  have k: "nth_e ?key i = Inr (?key ! i)" "nth_e ?key j = Inr (?key ! j)"
    using ij lk by (simp_all add: nth_e_def)
  have c: "nth_e cp (?key ! i) = Inr (cp ! (?key ! i))" "nth_e cp (?key ! j) = Inr (cp ! (?key ! j))"
    using ch cpok by (simp_all add: nth_e_def char_positions_ok_def)
  from tentative_swap [OF coh ij] obtain pt1 where
    t: "set_all (cp ! (?key ! i)) j (hc_plaintext st) = Inr pt1"
       "set_all (cp ! (?key ! j)) i pt1 = Inr (swapped i j (hc_plaintext st))"
    by blast
  from restore_swap [OF coh ij] obtain pt3 where
    r: "set_all (cp ! (?key ! i)) i (swapped i j (hc_plaintext st)) = Inr pt3"
       "set_all (cp ! (?key ! j)) j pt3 = Inr (hc_plaintext st)"
    by blast
  show ?thesis
    unfolding trial_def by (simp add: k c t r cong: if_cong)
qed

lemma coherent_accept:
  assumes coh: "coherent n cb cp st" and ij: "i < j" "j < n"
  shows "coherent n cb cp
           (st\<lparr>hc_plaintext := swapped i j (hc_plaintext st),
               hc_nbr_keys := k, hc_max_fitness := f, hc_better_key := b,
               hc_key := (hc_key st)[i := hc_key st ! j, j := hc_key st ! i]\<rparr>)"
proof -
  let ?key = "hc_key st" and ?pt = "hc_plaintext st"
  from coh have perm: "is_permutation n ?key" and cpok: "char_positions_ok n cb cp"
    and len: "length ?pt = length cb"
    and pt: "\<And>p. p < length cb \<Longrightarrow> ?pt ! p < n \<and> ?key ! (?pt ! p) = cb ! p"
    by (simp_all add: coherent_def)
  have lk: "length ?key = n" using perm by (rule is_permutation_length)
  have perm': "is_permutation n (?key[i := ?key ! j, j := ?key ! i])"
    using perm ij lk by (intro is_permutation_swap) simp_all
  have "swapped i j ?pt ! p < n \<and> ?key[i := ?key ! j, j := ?key ! i] ! (swapped i j ?pt ! p) = cb ! p"
    if p: "p < length cb" for p
    using pt [OF p] p len ij lk by (auto simp: swapped_def nth_list_update)
  then show ?thesis
    using perm' cpok len by (simp add: coherent_def swapped_def)
qed

lemma coherent_frame:
  "coherent n cb cp st \<Longrightarrow>
   coherent n cb cp (st\<lparr>hc_plaintext := hc_plaintext st, hc_nbr_keys := k\<rparr>)"
  by (simp add: coherent_def)







lemma trial_preserves_coherent:
  assumes "coherent n cb cp st" "i < j" "j < n" "trial q cp i j st = Inr st'"
  shows "coherent n cb cp st'"
proof -
  from assms(4) obtain tmp where
    sc: "score q (swapped i j (hc_plaintext st)) = Inr tmp" and
    st': "st' = (if tmp > hc_max_fitness st
       then st\<lparr>hc_plaintext := swapped i j (hc_plaintext st),
                     hc_nbr_keys := hc_nbr_keys st + 1,
                     hc_max_fitness := tmp,
                     hc_better_key := True,
                     hc_key := (hc_key st)[i := hc_key st ! j, j := hc_key st ! i]\<rparr>
       else st\<lparr>hc_plaintext := hc_plaintext st, hc_nbr_keys := hc_nbr_keys st + 1\<rparr>)"
    unfolding trial_coherent [OF assms(1-3)] ebind_Inr_iff by (auto split: if_splits)
  show ?thesis
    unfolding st' using coherent_accept [OF assms(1-3)] coherent_frame [OF assms(1)]
    by simp
qed

lemma coherent_better_key [simp]:
  "coherent n cb cp (st\<lparr>hc_better_key := b\<rparr>) = coherent n cb cp st"
  by (simp add: coherent_def)


lemma pass_preserves_coherent:
  assumes coh: "coherent n cb cp st" and run: "pass q cp n st = Inr st'"
  shows "coherent n cb cp st'"
proof -
  have inner: "coherent n cb cp s'"
    if "coherent n cb cp s" "efold (\<lambda>idx2. trial q cp i idx2) [i + 1..<n] s = Inr s'" for i s s'
    using that(2) that(1)
  proof (rule efold_invariant)
    fix j t t' assume "j \<in> set [i + 1..<n]" "coherent n cb cp t" "trial q cp i j t = Inr t'"
    then show "coherent n cb cp t'"
      using trial_preserves_coherent [of n cb cp t i j q t'] by simp
  qed
  have "coherent n cb cp (st\<lparr>hc_better_key := False\<rparr>)" using coh by simp
  with run [unfolded pass_def] show ?thesis
    by (rule efold_invariant) (auto intro: inner)
qed


lemma climb_preserves_coherent:
  assumes "coherent n cb cp st" "climb q cp n st = Inr st'"
  shows "coherent n cb cp st'"
  using assms
proof (induction q cp n st rule: climb.induct)
  case (1 quadgram char_positions key_len st)
  from "1.prems"(2) obtain st1 where
    p: "pass quadgram char_positions key_len st = Inr st1"
    by (subst (asm) climb.simps) (auto split: sum.splits)
  have c1: "coherent key_len cb char_positions st1"
    using pass_preserves_coherent [OF "1.prems"(1) p] .
  show ?case
  proof (cases "hc_better_key st1")
    case True
    have "climb quadgram char_positions key_len st1 = Inr st'"
      using "1.prems"(2) p True by (subst (asm) climb.simps) simp
    from "1.IH" [OF p True c1 this] show ?thesis .
  next
    case False
    have "st' = st1" using "1.prems"(2) p False by (subst (asm) climb.simps) simp
    with c1 show ?thesis by simp
  qed
qed











subsection \<open>The restart loop\<close>








subsection \<open>Which errors the search can raise\<close>





















subsection \<open>The search returns\<close>




















subsection \<open>A small breaker, evaluated\<close>














end
